theory Spec2Isabelle
  imports Main "HOL-Library.Word"
begin

section \<open>Data model of the broadcast hub (main.go)\<close>

text \<open>
  A \<open>*Client\<close> pointer is an address; the payload of a message is a byte slice; a point
  in time is a number of nanoseconds, as \<open>time.Duration\<close> counts them.
\<close>

type_synonym cid = nat
type_synonym byte = "8 word"
type_synonym message = "byte list"
type_synonym time = int

subsection \<open>Go channels of byte slices\<close>

text \<open>
  \<open>make(chan []byte, n)\<close>: the buffered values oldest first, the closed flag and the
  capacity. Go panics on a send to a closed channel and on closing a closed channel.
\<close>

datatype panic = SendOnClosedChannel | CloseOfClosedChannel

record chan =
  buf :: "message list"
  is_closed :: bool
  capacity :: nat

definition make_chan :: "nat \<Rightarrow> chan" where
  "make_chan n = \<lparr>buf = [], is_closed = False, capacity = n\<rparr>"

text \<open>\<open>close(ch)\<close>.\<close>

definition close_chan :: "chan \<Rightarrow> panic + chan" where
  "close_chan ch =
     (if is_closed ch then Inl CloseOfClosedChannel else Inr (ch\<lparr>is_closed := True\<rparr>))"

text \<open>
  \<open>select { case ch <- m: default: }\<close>: the send case is taken when the buffer has room
  (\<open>Some\<close> the channel after the send), the default case otherwise (\<open>None\<close>); a closed
  channel makes the send case proceed with a panic.
\<close>

definition select_send :: "chan \<Rightarrow> message \<Rightarrow> panic + chan option" where
  "select_send ch m =
     (if is_closed ch then Inl SendOnClosedChannel
      else if length (buf ch) < capacity ch then Inr (Some (ch\<lparr>buf := buf ch @ [m]\<rparr>))
      else Inr None)"

text \<open>
  \<open>m, ok := <-ch\<close>: the oldest buffered value with \<open>ok = true\<close>, also on a closed channel;
  the zero value with \<open>ok = false\<close> once a closed channel is empty; \<open>None\<close> when the
  receive would block (open and empty).
\<close>

definition recv :: "chan \<Rightarrow> (message \<times> bool \<times> chan) option" where
  "recv ch =
     (case buf ch of
        m # ms \<Rightarrow> Some (m, True, ch\<lparr>buf := ms\<rparr>)
      | [] \<Rightarrow> (if is_closed ch then Some ([], False, ch) else None))"

subsection \<open>The connection handle\<close>

text \<open>
  What the program does to a \<open>*websocket.Conn\<close>: it closes it, writes frames to it, and
  sets the read limit and the two deadlines.
\<close>

datatype frame = TextMessage message | PingMessage | CloseMessage

record Conn =
  is_open :: bool
  written :: "frame list"
  read_limit :: nat
  read_deadline :: time
  write_deadline :: time

text \<open>The handle that a successful \<open>upgrader.Upgrade\<close> returns: no limit, no deadline.\<close>

definition upgraded :: Conn where
  "upgraded = \<lparr>is_open = True, written = [], read_limit = 0, read_deadline = 0, write_deadline = 0\<rparr>"

subsection \<open>Clients, the hub and the requests sent to it\<close>

text \<open>
  \<open>type Client struct { hub *Hub; conn *websocket.Conn; send chan []byte }\<close>. There is
  one hub, so the \<open>hub\<close> field is left out.
\<close>

record Client =
  conn :: Conn
  send :: chan

text \<open>
  What travels over \<open>Hub.register\<close>, \<open>Hub.unregister\<close> and \<open>Hub.broadcast\<close>.
\<close>

datatype request = Register cid | Unregister cid | Broadcast message

text \<open>
  The whole program state: \<open>Hub.clients\<close> (\<open>map[*Client]bool\<close>), the \<open>Client\<close> objects
  behind the pointers, and the requests that have been sent on the hub's three channels, in
  the order they were sent.
\<close>

record world =
  clients :: "cid \<rightharpoonup> bool"
  heap :: "cid \<Rightarrow> Client"
  requests :: "request list"

text \<open>\<open>newHub\<close>: an empty map; nothing has been sent yet.\<close>

definition newHub :: "(cid \<Rightarrow> Client) \<Rightarrow> world" where
  "newHub objs = \<lparr>clients = Map.empty, heap = objs, requests = []\<rparr>"

definition set_send :: "cid \<Rightarrow> chan \<Rightarrow> world \<Rightarrow> world" where
  "set_send c ch w = w\<lparr>heap := (heap w)(c := (heap w c)\<lparr>send := ch\<rparr>)\<rparr>"

definition set_conn :: "cid \<Rightarrow> Conn \<Rightarrow> world \<Rightarrow> world" where
  "set_conn c cn w = w\<lparr>heap := (heap w)(c := (heap w c)\<lparr>conn := cn\<rparr>)\<rparr>"

section \<open>Hub.run\<close>

text \<open>
  The body of \<open>for client := range h.clients\<close> in the broadcast case, run over the keys in
  the order \<open>ks\<close> in which the runtime visits them (Go leaves the order open; the body
  deletes only the key it is visiting, so a visit order is an enumeration of the keys at
  the start of the loop).
\<close>

fun fanout :: "message \<Rightarrow> cid list \<Rightarrow> world \<Rightarrow> panic + world" where
  "fanout m [] w = Inr w"
| "fanout m (c # cs) w =
     (case select_send (send (heap w c)) m of
        Inl p \<Rightarrow> Inl p
      | Inr (Some ch) \<Rightarrow> fanout m cs (set_send c ch w)
      | Inr None \<Rightarrow>
          (case close_chan (send (heap w c)) of
             Inl p \<Rightarrow> Inl p
           | Inr ch \<Rightarrow> fanout m cs ((set_send c ch w)\<lparr>clients := (clients w)(c := None)\<rparr>)))"

text \<open>
  One iteration of the \<open>for { select { ... } }\<close> of \<open>Hub.run\<close>, on the request the select
  received; \<open>ks\<close> is the visit order of the range loop and matters to a broadcast only.
\<close>

type_synonym step = "request \<times> cid list"

fun run_step :: "world \<Rightarrow> step \<Rightarrow> panic + world" where
  "run_step w (Register c, ks) = Inr (w\<lparr>clients := (clients w)(c \<mapsto> True)\<rparr>)"
| "run_step w (Unregister c, ks) =
     (case clients w c of
        None \<Rightarrow> Inr w
      | Some _ \<Rightarrow>
          (case close_chan (send (heap w c)) of
             Inl p \<Rightarrow> Inl p
           | Inr ch \<Rightarrow> Inr ((set_send c ch w)\<lparr>clients := (clients w)(c := None)\<rparr>)))"
| "run_step w (Broadcast m, ks) = fanout m ks w"

text \<open>The loop of \<open>Hub.run\<close> over the requests it receives; a panic ends it.\<close>

fun run :: "world \<Rightarrow> step list \<Rightarrow> panic + world" where
  "run w [] = Inr w"
| "run w (s # ss) = (case run_step w s of Inl p \<Rightarrow> Inl p | Inr w' \<Rightarrow> run w' ss)"

text \<open>A visit order of the range loop enumerates the keys of the map, each once.\<close>

fun range_ok :: "world \<Rightarrow> step \<Rightarrow> bool" where
  "range_ok w (Broadcast m, ks) = (distinct ks \<and> set ks = dom (clients w))"
| "range_ok w (Register c, ks) = True"
| "range_ok w (Unregister c, ks) = True"

text \<open>
  Whether a visit order is right is checked along a run, at the state each request meets.
\<close>

fun orders_ok :: "world \<Rightarrow> step list \<Rightarrow> bool" where
  "orders_ok w [] = True"
| "orders_ok w (s # ss) =
     (range_ok w s \<and> (case run_step w s of Inl p \<Rightarrow> True | Inr w' \<Rightarrow> orders_ok w' ss))"

section \<open>serveWs\<close>

text \<open>
  After a successful upgrade \<open>serveWs\<close> allocates a \<open>Client\<close> (at the address \<open>c\<close>, new
  to the heap) with a send channel of 256 slots, sends it on \<open>Hub.register\<close> and starts
  the two pumps; after a failed upgrade it returns at once.
\<close>

definition new_client :: Client where
  "new_client = \<lparr>conn = upgraded, send = make_chan 256\<rparr>"

definition serveWs :: "bool \<Rightarrow> cid \<Rightarrow> world \<Rightarrow> world" where
  "serveWs upgrade_ok c w =
     (if upgrade_ok
      then w\<lparr>heap := (heap w)(c := new_client), requests := requests w @ [Register c]\<rparr>
      else w)"

section \<open>Client.readPump\<close>

text \<open>\<open>time.Second\<close>, in nanoseconds.\<close>

definition Second :: time where
  "Second = 1000000000"

text \<open>
  What reaches a blocked read: a data message, a pong (with the time it arrives at), or a
  failure of the stream.
\<close>

datatype read_error = ErrReadLimit | ErrTimeout | ErrProtocol | ErrPeerClose nat | ErrClosedHandle

datatype arrival = Data message | Pong time | Broken read_error

datatype received = Got message | Failed read_error | Handled Conn

text \<open>The closure that \<open>readPump\<close> passes to \<open>SetPongHandler\<close>.\<close>

definition pongHandler :: "time \<Rightarrow> Conn \<Rightarrow> Conn" where
  "pongHandler now cn = cn\<lparr>read_deadline := now + 60 * Second\<rparr>"

text \<open>
  Modelled from the spec: the blocking receive of the connection handle
  (\<open>Conn.ReadMessage\<close> of the websocket library, which is not part of the repository).
  It fails once the handle has been closed, on a message longer than the read limit (0
  means no limit), and on a timeout, a protocol error or a close by the peer; a pong runs
  the installed handler and the receive keeps waiting.
\<close>

definition ReadMessage :: "Conn \<Rightarrow> arrival \<Rightarrow> received" where
  "ReadMessage cn a =
     (if \<not> is_open cn then Failed ErrClosedHandle
      else case a of
        Data m \<Rightarrow>
          if read_limit cn \<noteq> 0 \<and> read_limit cn < length m then Failed ErrReadLimit else Got m
      | Pong now \<Rightarrow> Handled (pongHandler now cn)
      | Broken e \<Rightarrow> Failed e)"

datatype status = Running | Returned | Hung

text \<open>The deferred function of \<open>readPump\<close>: \<open>c.hub.unregister <- c\<close>, then \<open>c.conn.Close()\<close>.\<close>

definition readPump_defer :: "cid \<Rightarrow> world \<Rightarrow> world" where
  "readPump_defer c w =
     set_conn c ((conn (heap w c))\<lparr>is_open := False\<rparr>)
       (w\<lparr>requests := requests w @ [Unregister c]\<rparr>)"

text \<open>\<open>SetReadLimit(512)\<close> and \<open>SetReadDeadline(time.Now().Add(60 * time.Second))\<close>.\<close>

definition readPump_setup :: "time \<Rightarrow> cid \<Rightarrow> world \<Rightarrow> world" where
  "readPump_setup now c w =
     set_conn c ((conn (heap w c))\<lparr>read_limit := 512, read_deadline := now + 60 * Second\<rparr>) w"

text \<open>
  The \<open>for\<close> loop of \<open>readPump\<close> over what arrives: an error breaks the loop and the
  deferred function runs; a message is sent on \<open>Hub.broadcast\<close>. With nothing more to
  arrive the pump is still running, blocked in the read.
\<close>

fun readPump_loop :: "cid \<Rightarrow> arrival list \<Rightarrow> world \<Rightarrow> world \<times> status" where
  "readPump_loop c [] w = (w, Running)"
| "readPump_loop c (a # as) w =
     (case ReadMessage (conn (heap w c)) a of
        Handled cn \<Rightarrow> readPump_loop c as (set_conn c cn w)
      | Failed e \<Rightarrow> (readPump_defer c w, Returned)
      | Got m \<Rightarrow> readPump_loop c as (w\<lparr>requests := requests w @ [Broadcast m]\<rparr>))"

definition readPump :: "time \<Rightarrow> cid \<Rightarrow> arrival list \<Rightarrow> world \<Rightarrow> world \<times> status" where
  "readPump now c as w = readPump_loop c as (readPump_setup now c w)"

section \<open>Client.writePump\<close>

text \<open>
  What wakes the \<open>select\<close> of \<open>writePump\<close>: the receive from \<open>c.send\<close> is ready, or the
  ticker fired. Each carries \<open>time.Now()\<close> and the outcome of the writes the iteration
  makes on the handle: for a receive whether \<open>NextWriter\<close> (or the \<open>WriteMessage\<close> of the
  close frame) and then \<open>w.Close()\<close> succeed, for a tick whether the ping is written.
\<close>

datatype wake = SendReady time bool bool | Tick time bool


definition newline :: message where
  "newline = [10]"

text \<open>
  \<open>for i := 0; i < n; i++ { w.Write([]byte("\n")); w.Write(<-c.send) }\<close>, the bytes
  handed to the frame writer collected in \<open>payload\<close>; \<open>None\<close> when a receive blocks.
\<close>

fun drain :: "nat \<Rightarrow> chan \<Rightarrow> message \<Rightarrow> (message \<times> chan) option" where
  "drain 0 ch payload = Some (payload, ch)"
| "drain (Suc n) ch payload =
     (case recv ch of
        None \<Rightarrow> None
      | Some (m, ok, ch') \<Rightarrow> drain n ch' (payload @ newline @ m))"

text \<open>The deferred function of \<open>writePump\<close>: \<open>ticker.Stop()\<close>, then \<open>c.conn.Close()\<close>.\<close>

definition writePump_defer :: "cid \<Rightarrow> world \<Rightarrow> world" where
  "writePump_defer c w = set_conn c ((conn (heap w c))\<lparr>is_open := False\<rparr>) w"

definition SetWriteDeadline :: "time \<Rightarrow> cid \<Rightarrow> world \<Rightarrow> world" where
  "SetWriteDeadline t c w = set_conn c ((conn (heap w c))\<lparr>write_deadline := t\<rparr>) w"

text \<open>A frame that the handle accepted.\<close>

definition wrote :: "frame \<Rightarrow> cid \<Rightarrow> world \<Rightarrow> world" where
  "wrote f c w = set_conn c ((conn (heap w c))\<lparr>written := written (conn (heap w c)) @ [f]\<rparr>) w"

text \<open>
  One iteration of the \<open>for { select { ... } }\<close> of \<open>writePump\<close>. A \<open>return\<close> runs the
  deferred function. A receive that is not ready leaves the pump waiting.
\<close>

definition writePump_step :: "cid \<Rightarrow> wake \<Rightarrow> world \<Rightarrow> world \<times> status" where
  "writePump_step c ev w =
     (case ev of
        SendReady now first_ok close_ok \<Rightarrow>
          (case recv (send (heap w c)) of
             None \<Rightarrow> (w, Running)
           | Some (message, ok, ch) \<Rightarrow>
               (let w1 = SetWriteDeadline (now + 10 * Second) c (set_send c ch w) in
                if \<not> ok then
                  (writePump_defer c (if first_ok then wrote CloseMessage c w1 else w1), Returned)
                else if \<not> first_ok then (writePump_defer c w1, Returned)
                else
                  (case drain (length (buf ch)) ch message of
                     None \<Rightarrow> (w1, Hung)
                   | Some (payload, ch') \<Rightarrow>
                       (let w2 = set_send c ch' w1 in
                        if close_ok then (wrote (TextMessage payload) c w2, Running)
                        else (writePump_defer c w2, Returned)))))
      | Tick now ping_ok \<Rightarrow>
          (let w1 = SetWriteDeadline (now + 10 * Second) c w in
           if ping_ok then (wrote PingMessage c w1, Running)
           else (writePump_defer c w1, Returned)))"

text \<open>
  \<open>writePump\<close>: the ticker is made and the loop runs over the wake-ups, up to the first
  \<open>return\<close>. With no wake-up left the pump is still running, blocked in the select.
\<close>

fun writePump :: "cid \<Rightarrow> wake list \<Rightarrow> world \<Rightarrow> world \<times> status" where
  "writePump c [] w = (w, Running)"
| "writePump c (e # es) w =
     (case writePump_step c e w of
        (w', Running) \<Rightarrow> writePump c es w'
      | (w', Returned) \<Rightarrow> (w', Returned)
      | (w', Hung) \<Rightarrow> (w', Hung))"

section \<open>Notions used in the statements\<close>

text \<open>The send case of the non-blocking send is taken: the buffer has a free slot.\<close>

definition has_room :: "chan \<Rightarrow> bool" where
  "has_room ch = (length (buf ch) < capacity ch)"

text \<open>What a broadcast does to an open queue: enqueue, or close when there is no room.\<close>

definition deliver :: "message \<Rightarrow> chan \<Rightarrow> chan" where
  "deliver m ch = (if has_room ch then ch\<lparr>buf := buf ch @ [m]\<rparr> else ch\<lparr>is_closed := True\<rparr>)"

text \<open>The queue of every entry in the live set is open.\<close>

definition queues_open :: "world \<Rightarrow> bool" where
  "queues_open w = (\<forall>c \<in> dom (clients w). \<not> is_closed (send (heap w c)))"

text \<open>A run of broadcasts, each with its visit order.\<close>

definition broadcasts :: "(message \<times> cid list) list \<Rightarrow> step list" where
  "broadcasts bs = map (\<lambda>(m, ks). (Broadcast m, ks)) bs"

text \<open>The batch the spec describes: the first message, then each further one after a newline.\<close>

fun coalesce :: "message list \<Rightarrow> message" where
  "coalesce [] = []"
| "coalesce (m # ms) = m @ concat (map (\<lambda>x. newline @ x) ms)"

text \<open>
  A register request meets an entry whose queue has not been closed: entries are not
  registered again after their removal. Checked along a run, as the visit orders are.
\<close>

fun register_fresh :: "world \<Rightarrow> step \<Rightarrow> bool" where
  "register_fresh w (Register c, ks) = (\<not> is_closed (send (heap w c)))"
| "register_fresh w (Unregister c, ks) = True"
| "register_fresh w (Broadcast m, ks) = True"

fun no_reuse :: "world \<Rightarrow> step list \<Rightarrow> bool" where
  "no_reuse w [] = True"
| "no_reuse w (s # ss) =
     (register_fresh w s \<and> (case run_step w s of Inl p \<Rightarrow> True | Inr w' \<Rightarrow> no_reuse w' ss))"

text \<open>
  A step removes the entry \<open>c\<close> from the live set: it is an unregister request for \<open>c\<close>, or
  a broadcast that finds \<open>c\<close> in the live set with no room in its queue (the eviction of
  the default case). \<open>kept\<close>: no step of a run removes \<open>c\<close>.
\<close>

fun removes :: "world \<Rightarrow> step \<Rightarrow> cid \<Rightarrow> bool" where
  "removes w (Register d, ks) c = False"
| "removes w (Unregister d, ks) c = (d = c)"
| "removes w (Broadcast m, ks) c = (c \<in> dom (clients w) \<and> \<not> has_room (send (heap w c)))"

fun kept :: "world \<Rightarrow> step list \<Rightarrow> cid \<Rightarrow> bool" where
  "kept w [] c = True"
| "kept w (s # ss) c =
     (\<not> removes w s c \<and> (case run_step w s of Inl p \<Rightarrow> True | Inr w' \<Rightarrow> kept w' ss c))"

section \<open>Example states\<close>

text \<open>The hub as \<open>main\<close> starts it, over a heap of clients as \<open>serveWs\<close> makes them.\<close>

definition fresh_hub :: world where
  "fresh_hub = newHub (\<lambda>_. new_client)"

text \<open>Two registered clients as \<open>serveWs\<close> makes them, nothing buffered.\<close>

definition demo2 :: world where
  "demo2 = \<lparr>clients = [1 \<mapsto> True, 2 \<mapsto> True], heap = (\<lambda>_. new_client), requests = []\<rparr>"

text \<open>A short run: two clients register, the first leaves, a message is broadcast.\<close>

definition demo_run :: "step list" where
  "demo_run = [(Register 1, []), (Register 2, []), (Unregister 1, []), (Broadcast [104], [2])]"

text \<open>The same with the queue of client 1 filled to its 256 slots.\<close>

definition demo_full :: world where
  "demo_full =
     \<lparr>clients = [1 \<mapsto> True, 2 \<mapsto> True],
      heap = (\<lambda>_. new_client)(1 := new_client\<lparr>send := (make_chan 256)\<lparr>buf := replicate 256 []\<rparr>\<rparr>),
      requests = []\<rparr>"

text \<open>Client 1 with two messages waiting in its queue.\<close>

definition demo_buffered :: world where
  "demo_buffered =
     \<lparr>clients = [1 \<mapsto> True, 2 \<mapsto> True],
      heap = (\<lambda>_. new_client)(1 := new_client\<lparr>send := (make_chan 256)\<lparr>buf := [[104], [105, 106]]\<rparr>\<rparr>),
      requests = []\<rparr>"

text \<open>Client 1 removed from the live set, its queue closed with the two messages in it.\<close>

definition demo_closed :: world where
  "demo_closed =
     \<lparr>clients = [2 \<mapsto> True],
      heap = (\<lambda>_. new_client)
        (1 := new_client\<lparr>send := \<lparr>buf = [[104], [105, 106]], is_closed = True, capacity = 256\<rparr>\<rparr>),
      requests = []\<rparr>"

section \<open>The range loop of a broadcast\<close>

lemma fanout_char:
  "distinct ks \<Longrightarrow> \<forall>c \<in> set ks. \<not> is_closed (send (heap w c)) \<Longrightarrow>
     \<exists>w'. fanout m ks w = Inr w' \<and> requests w' = requests w \<and>
       (\<forall>c. heap w' c = (if c \<in> set ks then (heap w c)\<lparr>send := deliver m (send (heap w c))\<rparr> else heap w c)) \<and>
       (\<forall>c. clients w' c = (if c \<in> set ks \<and> \<not> has_room (send (heap w c)) then None else clients w c))"
proof (induction ks arbitrary: w)
  case Nil
  then show ?case by simp
next
  case (Cons k ks)
  let ?ch = "send (heap w k)"
  have op: "\<not> is_closed ?ch" using Cons.prems by simp
  have knot: "k \<notin> set ks" and dk: "distinct ks" using Cons.prems by simp_all
  show ?case
  proof (cases "has_room ?ch")
    case True
    let ?w1 = "set_send k (?ch\<lparr>buf := buf ?ch @ [m]\<rparr>) w"
    have sel: "select_send ?ch m = Inr (Some (?ch\<lparr>buf := buf ?ch @ [m]\<rparr>))"
      using op True by (simp add: select_send_def has_room_def)
    have pre: "\<forall>c \<in> set ks. \<not> is_closed (send (heap ?w1 c))"
      using Cons.prems knot by (auto simp: set_send_def)
    from Cons.IH[OF dk pre] obtain w' where
      w': "fanout m ks ?w1 = Inr w'" "requests w' = requests ?w1"
        "\<forall>c. heap w' c = (if c \<in> set ks then (heap ?w1 c)\<lparr>send := deliver m (send (heap ?w1 c))\<rparr> else heap ?w1 c)"
        "\<forall>c. clients w' c = (if c \<in> set ks \<and> \<not> has_room (send (heap ?w1 c)) then None else clients ?w1 c)"
      by blast
    have "fanout m (k # ks) w = Inr w'" using sel w'(1) by simp
    moreover have "requests w' = requests w" using w'(2) by (simp add: set_send_def)
    moreover have "\<forall>c. heap w' c = (if c \<in> set (k # ks) then (heap w c)\<lparr>send := deliver m (send (heap w c))\<rparr> else heap w c)"
      using w'(3) knot True by (auto simp: set_send_def deliver_def)
    moreover have "\<forall>c. clients w' c = (if c \<in> set (k # ks) \<and> \<not> has_room (send (heap w c)) then None else clients w c)"
      using w'(4) knot True by (auto simp: set_send_def)
    ultimately show ?thesis by blast
  next
    case False
    let ?w1 = "(set_send k (?ch\<lparr>is_closed := True\<rparr>) w)\<lparr>clients := (clients w)(k := None)\<rparr>"
    have sel: "select_send ?ch m = Inr None"
      using op False by (simp add: select_send_def has_room_def)
    have cl: "close_chan ?ch = Inr (?ch\<lparr>is_closed := True\<rparr>)"
      using op by (simp add: close_chan_def)
    have pre: "\<forall>c \<in> set ks. \<not> is_closed (send (heap ?w1 c))"
      using Cons.prems knot by (auto simp: set_send_def)
    from Cons.IH[OF dk pre] obtain w' where
      w': "fanout m ks ?w1 = Inr w'" "requests w' = requests ?w1"
        "\<forall>c. heap w' c = (if c \<in> set ks then (heap ?w1 c)\<lparr>send := deliver m (send (heap ?w1 c))\<rparr> else heap ?w1 c)"
        "\<forall>c. clients w' c = (if c \<in> set ks \<and> \<not> has_room (send (heap ?w1 c)) then None else clients ?w1 c)"
      by blast
    have "fanout m (k # ks) w = Inr w'" using sel cl w'(1) by simp
    moreover have "requests w' = requests w" using w'(2) by (simp add: set_send_def)
    moreover have "\<forall>c. heap w' c = (if c \<in> set (k # ks) then (heap w c)\<lparr>send := deliver m (send (heap w c))\<rparr> else heap w c)"
      using w'(3) knot False by (auto simp: set_send_def deliver_def)
    moreover have "\<forall>c. clients w' c = (if c \<in> set (k # ks) \<and> \<not> has_room (send (heap w c)) then None else clients w c)"
      using w'(4) knot False by (auto simp: set_send_def)
    ultimately show ?thesis by blast
  qed
qed

text \<open>A range loop that ends without a panic met open queues only.\<close>

lemma fanout_Inr_open:
  "fanout m ks w = Inr w' \<Longrightarrow> distinct ks \<Longrightarrow> c \<in> set ks \<Longrightarrow> \<not> is_closed (send (heap w c))"
proof (induction ks arbitrary: w)
  case Nil
  then show ?case by simp
next
  case (Cons k ks)
  have hd_open: "\<not> is_closed (send (heap w k))"
    using Cons.prems(1) by (auto simp: select_send_def split: if_splits)
  show ?case
  proof (cases "c = k")
    case True
    then show ?thesis using hd_open by simp
  next
    case False
    then have cin: "c \<in> set ks" using Cons.prems by simp
    have dk: "distinct ks" using Cons.prems by simp
    have "\<exists>w1. fanout m ks w1 = Inr w' \<and> heap w1 c = heap w c"
      using Cons.prems(1) False
      by (auto simp: select_send_def close_chan_def set_send_def split: if_splits)
    then obtain w1 where "fanout m ks w1 = Inr w'" "heap w1 c = heap w c" by blast
    then show ?thesis using Cons.IH[OF _ dk cin] by metis
  qed
qed

lemma broadcast_step_char:
  assumes "run_step w (Broadcast m, ks) = Inr w'" and "distinct ks"
  shows "requests w' = requests w"
    and "heap w' c = (if c \<in> set ks then (heap w c)\<lparr>send := deliver m (send (heap w c))\<rparr> else heap w c)"
    and "clients w' c = (if c \<in> set ks \<and> \<not> has_room (send (heap w c)) then None else clients w c)"
proof -
  have f: "fanout m ks w = Inr w'" using assms(1) by simp
  have "\<forall>c \<in> set ks. \<not> is_closed (send (heap w c))"
    using fanout_Inr_open[OF f assms(2)] by blast
  from fanout_char[OF assms(2) this, of m] f
  show "requests w' = requests w"
    and "heap w' c = (if c \<in> set ks then (heap w c)\<lparr>send := deliver m (send (heap w c))\<rparr> else heap w c)"
    and "clients w' c = (if c \<in> set ks \<and> \<not> has_room (send (heap w c)) then None else clients w c)"
    by auto
qed

lemma broadcast_step_ok:
  assumes "queues_open w" and "range_ok w (Broadcast m, ks)"
  shows "\<exists>w'. run_step w (Broadcast m, ks) = Inr w'"
proof -
  have "distinct ks" and "\<forall>c \<in> set ks. \<not> is_closed (send (heap w c))"
    using assms by (auto simp: queues_open_def)
  from fanout_char[OF this, of m] show ?thesis by auto
qed

lemma broadcast_keeps_open:
  assumes "queues_open w" and "range_ok w (Broadcast m, ks)"
    and "run_step w (Broadcast m, ks) = Inr w'"
  shows "queues_open w'"
proof -
  have d: "distinct ks" and s: "set ks = dom (clients w)" using assms(2) by simp_all
  note ch = broadcast_step_char[OF assms(3) d]
  show ?thesis
    unfolding queues_open_def
  proof
    fix c assume "c \<in> dom (clients w')"
    then have "clients w' c \<noteq> None" by auto
    then have live: "c \<in> dom (clients w)" and room: "c \<in> set ks \<longrightarrow> has_room (send (heap w c))"
      using ch(3)[of c] by (auto split: if_splits)
    have "\<not> is_closed (send (heap w c))" using assms(1) live by (simp add: queues_open_def)
    then show "\<not> is_closed (send (heap w' c))"
      using ch(2)[of c] room by (auto simp: deliver_def)
  qed
qed

section \<open>The example states arise in the program\<close>

lemma demo2_reached:
  "run fresh_hub [(Register 1, []), (Register 2, [])] = Inr demo2"
  by (simp add: fresh_hub_def newHub_def demo2_def)

lemma demo_closed_reached:
  "run_step demo_buffered (Unregister 1, []) = Inr demo_closed"
  by (auto simp: demo_buffered_def demo_closed_def close_chan_def set_send_def new_client_def
        make_chan_def fun_eq_iff)

section \<open>Registration of a present entry\<close>

text \<open>
  C9. A register request for an entry that is already in the live set is processed without
  a failure and leaves the live set as it was: the same keys (no duplicate, a map has each
  key once), every queue and connection handle untouched; the whole state is the same when
  the entry's map value is \<open>true\<close>, the only value the program ever stores.
\<close>

theorem register_present_unchanged:
  "c \<in> dom (clients w) \<Longrightarrow>
     (\<exists>w'. run_step w (Register c, ks) = Inr w' \<and> dom (clients w') = dom (clients w) \<and>
        heap w' = heap w \<and> requests w' = requests w \<and>
        (clients w c = Some True \<longrightarrow> w' = w))"
  by (auto simp: fun_upd_idem)

theorem register_present_unchanged_witness:
  "1 \<in> dom (clients demo2) \<and>
   (\<exists>w'. run_step demo2 (Register 1, []) = Inr w' \<and> dom (clients w') = dom (clients demo2) \<and>
      heap w' = heap demo2 \<and> requests w' = requests demo2 \<and> w' = demo2)"
proof -
  have h: "1 \<in> dom (clients demo2)" by (simp add: demo2_def)
  have v: "clients demo2 1 = Some True" by (simp add: demo2_def)
  from register_present_unchanged[OF h, of "[]"] v h show ?thesis by blast
qed

section \<open>Fan-out\<close>

text \<open>
  C1. From a state whose live queues are open, a run of broadcasts (each visiting the live
  set in any order) ends without a panic; an entry is still in the live set afterwards
  exactly when it was there before and each broadcast found a free slot in its queue; and
  the queue of every entry still in the live set holds what it held before followed by
  the broadcast messages in the order the hub received them. A broadcast carries no
  sender, so the sender's own queue is treated as every other.
\<close>

theorem fanout_fifo:
  assumes "queues_open w" and "orders_ok w (broadcasts bs)"
  shows "\<exists>w'. run w (broadcasts bs) = Inr w' \<and>
     dom (clients w') =
       {c \<in> dom (clients w).
          \<forall>i < length bs. length (buf (send (heap w c))) + i < capacity (send (heap w c))} \<and>
     (\<forall>c \<in> dom (clients w').
        buf (send (heap w' c)) = buf (send (heap w c)) @ map fst bs)"
  using assms
proof (induction bs arbitrary: w)
  case Nil
  then show ?case by (simp add: broadcasts_def)
next
  case (Cons b bs)
  obtain m ks where b: "b = (m, ks)" by (cases b)
  have split: "broadcasts (b # bs) = (Broadcast m, ks) # broadcasts bs"
    by (simp add: broadcasts_def b)
  have rk: "range_ok w (Broadcast m, ks)" using Cons.prems(2) split by simp
  then have d: "distinct ks" and s: "set ks = dom (clients w)" by simp_all
  from broadcast_step_ok[OF Cons.prems(1) rk]
  obtain w1 where w1: "run_step w (Broadcast m, ks) = Inr w1" by blast
  have open1: "queues_open w1" by (rule broadcast_keeps_open[OF Cons.prems(1) rk w1])
  have ord1: "orders_ok w1 (broadcasts bs)" using Cons.prems(2) split w1 by simp
  from Cons.IH[OF open1 ord1] obtain w' where
    r: "run w1 (broadcasts bs) = Inr w'"
    and dm: "dom (clients w') =
       {c \<in> dom (clients w1).
          \<forall>i < length bs. length (buf (send (heap w1 c))) + i < capacity (send (heap w1 c))}"
    and bf: "\<forall>c \<in> dom (clients w'). buf (send (heap w' c)) = buf (send (heap w1 c)) @ map fst bs"
    by blast
  note ch = broadcast_step_char[OF w1 d]
  have live1: "c \<in> dom (clients w1) \<longleftrightarrow> c \<in> dom (clients w) \<and> has_room (send (heap w c))" for c
    using ch(3)[of c] s by (auto split: if_splits)
  have q1: "send (heap w1 c) = (send (heap w c))\<lparr>buf := buf (send (heap w c)) @ [m]\<rparr>"
    if "c \<in> dom (clients w1)" for c
    using that live1[of c] ch(2)[of c] s by (auto simp: deliver_def)
  have "run w (broadcasts (b # bs)) = Inr w'" using split w1 r by simp
  moreover have "dom (clients w') =
       {c \<in> dom (clients w).
          \<forall>i < length (b # bs). length (buf (send (heap w c))) + i < capacity (send (heap w c))}"
  proof (rule set_eqI)
    fix c
    show "c \<in> dom (clients w') \<longleftrightarrow> c \<in> {c \<in> dom (clients w).
          \<forall>i < length (b # bs). length (buf (send (heap w c))) + i < capacity (send (heap w c))}"
    proof (cases "c \<in> dom (clients w1)")
      case True
      then show ?thesis
        using dm live1[of c] q1[OF True] by (simp add: All_less_Suc2 has_room_def)
    next
      case False
      then show ?thesis
        using dm live1[of c] by (auto simp: All_less_Suc2 has_room_def)
    qed
  qed
  moreover have "\<forall>c \<in> dom (clients w'). buf (send (heap w' c)) = buf (send (heap w c)) @ map fst (b # bs)"
  proof
    fix c assume c: "c \<in> dom (clients w')"
    then have "c \<in> dom (clients w1)" using dm by simp
    from q1[OF this] bf c show "buf (send (heap w' c)) = buf (send (heap w c)) @ map fst (b # bs)"
      by (simp add: b)
  qed
  ultimately show ?case by blast
qed

theorem fanout_fifo_witness:
  "queues_open demo2 \<and> orders_ok demo2 (broadcasts [([104], [1, 2]), ([105], [2, 1])]) \<and>
   (\<exists>w'. run demo2 (broadcasts [([104], [1, 2]), ([105], [2, 1])]) = Inr w' \<and>
      dom (clients w') = {1, 2} \<and>
      buf (send (heap w' 1)) = [[104], [105]] \<and> buf (send (heap w' 2)) = [[104], [105]])"
proof -
  have h1: "queues_open demo2"
    by (simp add: queues_open_def demo2_def new_client_def make_chan_def)
  have h2: "orders_ok demo2 (broadcasts [([104], [1, 2]), ([105], [2, 1])])"
    by (auto simp: broadcasts_def demo2_def new_client_def make_chan_def select_send_def set_send_def)
  from fanout_fifo[OF h1 h2] obtain w' where
    r: "run demo2 (broadcasts [([104], [1, 2]), ([105], [2, 1])]) = Inr w'"
    and dm: "dom (clients w') = {c \<in> dom (clients demo2).
          \<forall>i < length [([104::byte], [1::nat, 2]), ([105], [2, 1])].
             length (buf (send (heap demo2 c))) + i < capacity (send (heap demo2 c))}"
    and bf: "\<forall>c \<in> dom (clients w'). buf (send (heap w' c)) =
          buf (send (heap demo2 c)) @ map fst [([104::byte], [1::nat, 2]), ([105], [2, 1])]"
    by blast
  have dm': "dom (clients w') = {1, 2}"
    using dm by (auto simp: demo2_def new_client_def make_chan_def)
  have "buf (send (heap w' 1)) = [[104], [105]]" "buf (send (heap w' 2)) = [[104], [105]]"
    using bf dm' by (simp_all add: demo2_def new_client_def make_chan_def)
  with h1 h2 r dm' show ?thesis by blast
qed

section \<open>Backpressure eviction\<close>

text \<open>
  C2. In a broadcast step from a state whose live queues are open, for any visit order: the
  step ends (the send is non-blocking, and nothing panics); an entry of the live set whose
  queue has no free slot has its queue closed, with the buffered messages left in it, and is
  removed from the live set in that step; every entry of the live set whose queue has room
  stays in the live set with the message appended to its queue. A queue made by \<open>serveWs\<close>
  has room exactly while it holds fewer than 256 messages.
\<close>

theorem backpressure_eviction:
  assumes "queues_open w" and "range_ok w (Broadcast m, ks)"
    and "c \<in> dom (clients w)" and "\<not> has_room (send (heap w c))"
  shows "\<exists>w'. run_step w (Broadcast m, ks) = Inr w' \<and>
     c \<notin> dom (clients w') \<and> send (heap w' c) = (send (heap w c))\<lparr>is_closed := True\<rparr> \<and>
     (\<forall>d \<in> dom (clients w). has_room (send (heap w d)) \<longrightarrow>
        d \<in> dom (clients w') \<and>
        send (heap w' d) = (send (heap w d))\<lparr>buf := buf (send (heap w d)) @ [m]\<rparr>) \<and>
     (\<forall>v a bs. has_room ((send (heap (serveWs True a v) a))\<lparr>buf := bs\<rparr>) = (length bs < 256))"
proof -
  have d: "distinct ks" and s: "set ks = dom (clients w)" using assms(2) by simp_all
  from broadcast_step_ok[OF assms(1,2)]
  obtain w' where w': "run_step w (Broadcast m, ks) = Inr w'" by blast
  note ch = broadcast_step_char[OF w' d]
  have "c \<notin> dom (clients w')" using ch(3)[of c] assms(3,4) s by auto
  moreover have "send (heap w' c) = (send (heap w c))\<lparr>is_closed := True\<rparr>"
    using ch(2)[of c] assms(3,4) s by (simp add: deliver_def)
  moreover have "\<forall>d \<in> dom (clients w). has_room (send (heap w d)) \<longrightarrow>
        d \<in> dom (clients w') \<and>
        send (heap w' d) = (send (heap w d))\<lparr>buf := buf (send (heap w d)) @ [m]\<rparr>"
  proof (intro ballI impI)
    fix d assume "d \<in> dom (clients w)" and "has_room (send (heap w d))"
    then show "d \<in> dom (clients w') \<and>
        send (heap w' d) = (send (heap w d))\<lparr>buf := buf (send (heap w d)) @ [m]\<rparr>"
      using ch(2)[of d] ch(3)[of d] s by (auto simp: deliver_def)
  qed
  moreover have "\<forall>v a bs. has_room ((send (heap (serveWs True a v) a))\<lparr>buf := bs\<rparr>) = (length bs < 256)"
    by (simp add: serveWs_def new_client_def make_chan_def has_room_def)
  ultimately show ?thesis using w' by blast
qed

theorem backpressure_eviction_witness:
  "queues_open demo_full \<and> range_ok demo_full (Broadcast [104], [2, 1]) \<and>
   1 \<in> dom (clients demo_full) \<and> \<not> has_room (send (heap demo_full 1)) \<and>
   length (buf (send (heap demo_full 1))) = 256 \<and>
   (\<exists>w'. run_step demo_full (Broadcast [104], [2, 1]) = Inr w' \<and>
      1 \<notin> dom (clients w') \<and> is_closed (send (heap w' 1)) \<and>
      2 \<in> dom (clients w') \<and> buf (send (heap w' 2)) = [[104]])"
proof -
  have h1: "queues_open demo_full"
    by (simp add: queues_open_def demo_full_def new_client_def make_chan_def)
  have h2: "range_ok demo_full (Broadcast [104], [2, 1])"
    by (auto simp: demo_full_def)
  have h3: "1 \<in> dom (clients demo_full)" by (simp add: demo_full_def)
  have h4: "\<not> has_room (send (heap demo_full 1))"
    by (simp add: has_room_def demo_full_def new_client_def make_chan_def)
  have h5: "length (buf (send (heap demo_full 1))) = 256"
    by (simp add: demo_full_def new_client_def make_chan_def)
  have r2: "2 \<in> dom (clients demo_full)" "has_room (send (heap demo_full 2))"
    "buf (send (heap demo_full 2)) = []"
    by (simp_all add: has_room_def demo_full_def new_client_def make_chan_def)
  from backpressure_eviction[OF h1 h2 h3 h4] obtain w' where
    "run_step demo_full (Broadcast [104], [2, 1]) = Inr w'"
    "1 \<notin> dom (clients w')"
    "send (heap w' 1) = (send (heap demo_full 1))\<lparr>is_closed := True\<rparr>"
    "\<forall>d \<in> dom (clients demo_full). has_room (send (heap demo_full d)) \<longrightarrow>
        d \<in> dom (clients w') \<and>
        send (heap w' d) = (send (heap demo_full d))\<lparr>buf := buf (send (heap demo_full d)) @ [[104]]\<rparr>"
    by blast
  then have "run_step demo_full (Broadcast [104], [2, 1]) = Inr w' \<and>
      1 \<notin> dom (clients w') \<and> is_closed (send (heap w' 1)) \<and>
      2 \<in> dom (clients w') \<and> buf (send (heap w' 2)) = [[104]]"
    using r2 by simp
  with h1 h2 h3 h4 h5 show ?thesis by blast
qed

section \<open>Closing a queue at most once\<close>

lemma step_safe:
  assumes "queues_open w" and "range_ok w s" and "register_fresh w s"
  shows "\<exists>w'. run_step w s = Inr w' \<and> queues_open w' \<and>
           (\<forall>c. is_closed (send (heap w c)) \<longrightarrow>
                  send (heap w' c) = send (heap w c) \<and> c \<notin> dom (clients w'))"
proof -
  obtain r ks where s: "s = (r, ks)" by (cases s)
  have dead: "c \<notin> dom (clients w)" if "is_closed (send (heap w c))" for c
    using that assms(1) by (auto simp: queues_open_def)
  show ?thesis
  proof (cases r)
    case (Register c)
    then show ?thesis
      using assms s dead by (auto simp: queues_open_def)
  next
    case (Unregister c)
    show ?thesis
    proof (cases "clients w c")
      case None
      then show ?thesis using assms(1) s Unregister dead by auto
    next
      case (Some b)
      then have "\<not> is_closed (send (heap w c))"
        using assms(1) by (auto simp: queues_open_def)
      then show ?thesis
        using assms(1) s Unregister Some dead
        by (auto simp: queues_open_def close_chan_def set_send_def)
    qed
  next
    case (Broadcast m)
    have rk: "range_ok w (Broadcast m, ks)" using assms(2) s Broadcast by simp
    then have d: "distinct ks" and st: "set ks = dom (clients w)" by simp_all
    from broadcast_step_ok[OF assms(1) rk]
    obtain w' where w': "run_step w (Broadcast m, ks) = Inr w'" by blast
    note ch = broadcast_step_char[OF w' d]
    have "queues_open w'" by (rule broadcast_keeps_open[OF assms(1) rk w'])
    moreover have "\<forall>c. is_closed (send (heap w c)) \<longrightarrow>
                  send (heap w' c) = send (heap w c) \<and> c \<notin> dom (clients w')"
    proof (intro allI impI)
      fix c assume cl: "is_closed (send (heap w c))"
      then have "c \<notin> set ks" using dead st by simp
      then show "send (heap w' c) = send (heap w c) \<and> c \<notin> dom (clients w')"
        using ch(2)[of c] ch(3)[of c] dead[OF cl] by auto
    qed
    ultimately show ?thesis using w' s Broadcast by simp
  qed
qed

lemma unregister_twice:
  "run_step w (Unregister c, ks) = Inr w1 \<Longrightarrow> run_step w1 (Unregister c, ks') = Inr w1"
  by (auto simp: close_chan_def set_send_def split: option.splits if_splits)

text \<open>
  C3, as amended. Take any sequence of register, unregister and broadcast requests in which
  no entry is registered after its queue was closed, from a state whose live queues are
  open. The hub processes it without a panic, so it never closes a closed queue and never
  sends on one; a queue that is closed is not in the live set and is never changed again;
  and an unregister request processed a second time changes nothing.
  As stated, for every sequence, the claim fails: a register that follows the removal of
  the same entry puts a closed queue back into the live set, and the next unregister closes
  it a second time, the next broadcast sends on it.
\<close>

theorem closed_once:
  assumes "queues_open w" and "orders_ok w ss" and "no_reuse w ss"
  shows "\<exists>w'. run w ss = Inr w' \<and> queues_open w' \<and>
           (\<forall>c. is_closed (send (heap w c)) \<longrightarrow>
                  send (heap w' c) = send (heap w c) \<and> c \<notin> dom (clients w')) \<and>
           (\<forall>c ks ks' w1. run_step w' (Unregister c, ks) = Inr w1 \<longrightarrow>
                  run_step w1 (Unregister c, ks') = Inr w1)"
  using assms
proof (induction ss arbitrary: w)
  case Nil
  have "\<forall>c. is_closed (send (heap w c)) \<longrightarrow> c \<notin> dom (clients w)"
    using Nil(1) by (auto simp: queues_open_def)
  moreover have "\<forall>c ks ks' w1. run_step w (Unregister c, ks) = Inr w1 \<longrightarrow>
                  run_step w1 (Unregister c, ks') = Inr w1"
    using unregister_twice by blast
  ultimately show ?case using Nil(1) by simp
next
  case (Cons s ss)
  have rk: "range_ok w s" and rf: "register_fresh w s" using Cons.prems by simp_all
  from step_safe[OF Cons.prems(1) rk rf] obtain w1 where
    w1: "run_step w s = Inr w1" and o1: "queues_open w1"
    and fr1: "\<forall>c. is_closed (send (heap w c)) \<longrightarrow>
                  send (heap w1 c) = send (heap w c) \<and> c \<notin> dom (clients w1)"
    by blast
  have "orders_ok w1 ss" and "no_reuse w1 ss" using Cons.prems w1 by simp_all
  from Cons.IH[OF o1 this] obtain w' where
    r: "run w1 ss = Inr w'" and o': "queues_open w'"
    and fr': "\<forall>c. is_closed (send (heap w1 c)) \<longrightarrow>
                  send (heap w' c) = send (heap w1 c) \<and> c \<notin> dom (clients w')"
    and idem: "\<forall>c ks ks' w2. run_step w' (Unregister c, ks) = Inr w2 \<longrightarrow>
                  run_step w2 (Unregister c, ks') = Inr w2"
    by blast
  have "run w (s # ss) = Inr w'" using w1 r by simp
  moreover have "\<forall>c. is_closed (send (heap w c)) \<longrightarrow>
                  send (heap w' c) = send (heap w c) \<and> c \<notin> dom (clients w')"
    using fr1 fr' by metis
  ultimately show ?case using o' idem by blast
qed

theorem closed_once_counterexample:
  "run fresh_hub [(Register 0, []), (Unregister 0, []), (Register 0, []), (Unregister 0, [])]
     = Inl CloseOfClosedChannel \<and>
   run fresh_hub [(Register 0, []), (Unregister 0, []), (Register 0, []), (Broadcast [104], [0])]
     = Inl SendOnClosedChannel"
  by (simp add: fresh_hub_def newHub_def new_client_def make_chan_def close_chan_def
        set_send_def select_send_def)

theorem closed_once_witness:
  "queues_open fresh_hub \<and>
   orders_ok fresh_hub [(Register 0, []), (Unregister 0, []), (Unregister 0, []), (Broadcast [104], [])] \<and>
   no_reuse fresh_hub [(Register 0, []), (Unregister 0, []), (Unregister 0, []), (Broadcast [104], [])] \<and>
   (\<exists>w'. run fresh_hub [(Register 0, []), (Unregister 0, []), (Unregister 0, []), (Broadcast [104], [])]
            = Inr w' \<and> queues_open w')"
proof -
  have h1: "queues_open fresh_hub"
    by (simp add: queues_open_def fresh_hub_def newHub_def)
  have h2: "orders_ok fresh_hub [(Register 0, []), (Unregister 0, []), (Unregister 0, []), (Broadcast [104], [])]"
    by (simp add: fresh_hub_def newHub_def new_client_def make_chan_def close_chan_def set_send_def)
  have h3: "no_reuse fresh_hub [(Register 0, []), (Unregister 0, []), (Unregister 0, []), (Broadcast [104], [])]"
    by (simp add: fresh_hub_def newHub_def new_client_def make_chan_def close_chan_def set_send_def)
  from closed_once[OF h1 h2 h3] h1 h2 h3 show ?thesis by blast
qed

section \<open>Membership of the live set along a run\<close>

lemma step_membership:
  assumes "run_step w s = Inr w1" and "range_ok w s"
  shows "c \<in> dom (clients w1) \<longleftrightarrow>
           (\<exists>ks. s = (Register c, ks)) \<or> (c \<in> dom (clients w) \<and> \<not> removes w s c)"
proof -
  obtain r ks where s: "s = (r, ks)" by (cases s)
  show ?thesis
  proof (cases r)
    case (Register d)
    then show ?thesis using assms s by auto
  next
    case (Unregister d)
    then show ?thesis
      using assms s
      by (auto simp: close_chan_def set_send_def split: option.splits if_splits)
  next
    case (Broadcast m)
    have w1: "run_step w (Broadcast m, ks) = Inr w1" using assms(1) s Broadcast by simp
    have d: "distinct ks" and st: "set ks = dom (clients w)"
      using assms(2) s Broadcast by simp_all
    from broadcast_step_char(3)[OF w1 d, of c] st
    show ?thesis using s Broadcast by (auto split: if_splits)
  qed
qed

lemma membership_history:
  assumes "run w0 ss = Inr w" and "orders_ok w0 ss"
  shows "c \<in> dom (clients w) \<longleftrightarrow>
           (c \<in> dom (clients w0) \<and> kept w0 ss c) \<or>
           (\<exists>pre ks post w1. ss = pre @ (Register c, ks) # post \<and>
               run w0 (pre @ [(Register c, ks)]) = Inr w1 \<and> kept w1 post c)"
  using assms
proof (induction ss arbitrary: w0)
  case Nil
  then show ?case by simp
next
  case (Cons s ss)
  from Cons.prems(1) obtain w1 where w1: "run_step w0 s = Inr w1" and r: "run w1 ss = Inr w"
    by (auto split: sum.splits)
  have rk: "range_ok w0 s" and ord: "orders_ok w1 ss" using Cons.prems(2) w1 by simp_all
  let ?B = "\<lambda>v xs. \<exists>pre ks post w2. xs = pre @ (Register c, ks) # post \<and>
               run v (pre @ [(Register c, ks)]) = Inr w2 \<and> kept w2 post c"
  have IH: "c \<in> dom (clients w) \<longleftrightarrow> (c \<in> dom (clients w1) \<and> kept w1 ss c) \<or> ?B w1 ss"
    by (rule Cons.IH[OF r ord])
  have mem: "c \<in> dom (clients w1) \<longleftrightarrow>
           (\<exists>ks. s = (Register c, ks)) \<or> (c \<in> dom (clients w0) \<and> \<not> removes w0 s c)"
    by (rule step_membership[OF w1 rk])
  have kp: "kept w0 (s # ss) c \<longleftrightarrow> \<not> removes w0 s c \<and> kept w1 ss c"
    using w1 by simp
  have B: "?B w0 (s # ss) \<longleftrightarrow> ((\<exists>ks. s = (Register c, ks)) \<and> kept w1 ss c) \<or> ?B w1 ss"
  proof
    assume "?B w0 (s # ss)"
    then obtain pre ks post w2 where
      eq: "s # ss = pre @ (Register c, ks) # post"
      and rn: "run w0 (pre @ [(Register c, ks)]) = Inr w2" and k: "kept w2 post c"
      by blast
    show "((\<exists>ks. s = (Register c, ks)) \<and> kept w1 ss c) \<or> ?B w1 ss"
    proof (cases pre)
      case Nil
      then have "s = (Register c, ks)" and "post = ss" using eq by simp_all
      moreover have "w2 = w1" using rn Nil w1 \<open>s = (Register c, ks)\<close> by simp
      ultimately show ?thesis using k by blast
    next
      case (Cons a pre')
      then have a: "a = s" and ss: "ss = pre' @ (Register c, ks) # post" using eq by simp_all
      have "run w1 (pre' @ [(Register c, ks)]) = Inr w2"
        using rn Cons a w1 by simp
      then show ?thesis using ss k by blast
    qed
  next
    assume "((\<exists>ks. s = (Register c, ks)) \<and> kept w1 ss c) \<or> ?B w1 ss"
    then show "?B w0 (s # ss)"
    proof
      assume h: "(\<exists>ks. s = (Register c, ks)) \<and> kept w1 ss c"
      then obtain ks where s: "s = (Register c, ks)" by blast
      have "s # ss = [] @ (Register c, ks) # ss" using s by simp
      moreover have "run w0 ([] @ [(Register c, ks)]) = Inr w1" using w1 s by simp
      ultimately show ?thesis using h by blast
    next
      assume "?B w1 ss"
      then obtain pre ks post w2 where
        eq: "ss = pre @ (Register c, ks) # post"
        and rn: "run w1 (pre @ [(Register c, ks)]) = Inr w2" and k: "kept w2 post c"
        by blast
      have "s # ss = (s # pre) @ (Register c, ks) # post" using eq by simp
      moreover have "run w0 ((s # pre) @ [(Register c, ks)]) = Inr w2" using rn w1 by simp
      ultimately show ?thesis using k by blast
    qed
  qed
  show ?case
    unfolding IH mem kp B by blast
qed

section \<open>One iteration of the writer\<close>

lemma drain_take:
  "n \<le> length (buf ch) \<Longrightarrow>
     drain n ch p =
       Some (p @ concat (map (\<lambda>x. newline @ x) (take n (buf ch))), ch\<lparr>buf := drop n (buf ch)\<rparr>)"
proof (induction n arbitrary: ch p)
  case 0
  then show ?case by simp
next
  case (Suc n)
  then obtain m ms where b: "buf ch = m # ms" by (cases "buf ch") auto
  have rc: "recv ch = Some (m, True, ch\<lparr>buf := ms\<rparr>)" by (simp add: recv_def b)
  have "n \<le> length (buf (ch\<lparr>buf := ms\<rparr>))" using Suc.prems b by simp
  from Suc.IH[OF this, of "p @ newline @ m"] rc b show ?case by simp
qed

lemma drain_all:
  "drain (length (buf ch)) ch p =
     Some (p @ concat (map (\<lambda>x. newline @ x) (buf ch)), ch\<lparr>buf := []\<rparr>)"
  using drain_take[of "length (buf ch)" ch p] by simp

lemma writePump_step_message:
  assumes "buf (send (heap w c)) = m # ms"
  shows "writePump_step c (SendReady now first_ok close_ok) w =
     (if first_ok \<and> close_ok then
        (wrote (TextMessage (coalesce (m # ms))) c
           (set_send c ((send (heap w c))\<lparr>buf := []\<rparr>)
              (SetWriteDeadline (now + 10 * Second) c w)), Running)
      else if first_ok then
        (writePump_defer c
           (set_send c ((send (heap w c))\<lparr>buf := []\<rparr>)
              (SetWriteDeadline (now + 10 * Second) c w)), Returned)
      else
        (writePump_defer c
           (set_send c ((send (heap w c))\<lparr>buf := ms\<rparr>)
              (SetWriteDeadline (now + 10 * Second) c w)), Returned))"
proof -
  let ?ch = "(send (heap w c))\<lparr>buf := ms\<rparr>"
  have rc: "recv (send (heap w c)) = Some (m, True, ?ch)"
    by (simp add: recv_def assms)
  have dr: "drain (length (buf ?ch)) ?ch m =
     Some (coalesce (m # ms), (send (heap w c))\<lparr>buf := []\<rparr>)"
    using drain_all[of ?ch m] by simp
  have comm: "SetWriteDeadline t c (set_send c ch w) = set_send c ch (SetWriteDeadline t c w)" for t ch
    by (auto simp: SetWriteDeadline_def set_send_def set_conn_def fun_eq_iff)
  have over: "set_send c ch1 (set_send c ch2 v) = set_send c ch1 v" for ch1 ch2 v
    by (simp add: set_send_def)
  show ?thesis
    unfolding writePump_step_def
    using rc dr by (simp add: Let_def comm over del: coalesce.simps)
qed

lemma writePump_step_closed:
  assumes "buf (send (heap w c)) = []" and "is_closed (send (heap w c))"
  shows "writePump_step c (SendReady now first_ok close_ok) w =
     (writePump_defer c
        (if first_ok then wrote CloseMessage c (SetWriteDeadline (now + 10 * Second) c w)
         else SetWriteDeadline (now + 10 * Second) c w), Returned)"
proof -
  have rc: "recv (send (heap w c)) = Some ([], False, send (heap w c))"
    by (simp add: recv_def assms)
  have same: "set_send c (send (heap w c)) w = w"
    by (simp add: set_send_def)
  show ?thesis
    unfolding writePump_step_def using rc by (simp add: Let_def same)
qed

lemma writePump_step_waiting:
  assumes "buf (send (heap w c)) = []" and "\<not> is_closed (send (heap w c))"
  shows "writePump_step c (SendReady now first_ok close_ok) w = (w, Running)"
  unfolding writePump_step_def by (simp add: recv_def assms)

lemma writePump_step_tick:
  "writePump_step c (Tick now ping_ok) w =
     (if ping_ok then (wrote PingMessage c (SetWriteDeadline (now + 10 * Second) c w), Running)
      else (writePump_defer c (SetWriteDeadline (now + 10 * Second) c w), Returned))"
  unfolding writePump_step_def by (simp add: Let_def)

lemma prim_frame:
  "clients (set_send c ch w) = clients w" "requests (set_send c ch w) = requests w"
  "d \<noteq> c \<Longrightarrow> heap (set_send c ch w) d = heap w d"
  "clients (set_conn c cn w) = clients w" "requests (set_conn c cn w) = requests w"
  "d \<noteq> c \<Longrightarrow> heap (set_conn c cn w) d = heap w d"
  "send (heap (set_conn c cn w) c) = send (heap w c)"
  "conn (heap (set_send c ch w) c) = conn (heap w c)"
  "send (heap (set_send c ch w) c) = ch"
  "conn (heap (set_conn c cn w) c) = cn"
  by (simp_all add: set_send_def set_conn_def)

lemma writer_prim_frame:
  "clients (SetWriteDeadline t c w) = clients w" "requests (SetWriteDeadline t c w) = requests w"
  "d \<noteq> c \<Longrightarrow> heap (SetWriteDeadline t c w) d = heap w d"
  "clients (wrote f c w) = clients w" "requests (wrote f c w) = requests w"
  "d \<noteq> c \<Longrightarrow> heap (wrote f c w) d = heap w d"
  "clients (writePump_defer c w) = clients w" "requests (writePump_defer c w) = requests w"
  "d \<noteq> c \<Longrightarrow> heap (writePump_defer c w) d = heap w d"
  "\<not> is_open (conn (heap (writePump_defer c w) c))"
  by (simp_all add: SetWriteDeadline_def wrote_def writePump_defer_def prim_frame)

lemma writePump_step_cases:
  obtains (waiting) "writePump_step c ev w = (w, Running)"
  | (message) now first_ok close_ok m ms where "ev = SendReady now first_ok close_ok"
      "buf (send (heap w c)) = m # ms"
  | (closed) now first_ok close_ok where "ev = SendReady now first_ok close_ok"
      "buf (send (heap w c)) = []" "is_closed (send (heap w c))"
  | (tick) now ping_ok where "ev = Tick now ping_ok"
proof (cases ev)
  case (SendReady now first_ok close_ok)
  show ?thesis
  proof (cases "buf (send (heap w c))")
    case Nil
    show ?thesis
    proof (cases "is_closed (send (heap w c))")
      case True
      then show ?thesis using closed SendReady Nil by blast
    next
      case False
      then show ?thesis using waiting writePump_step_waiting[OF Nil False] SendReady by blast
    qed
  next
    case (Cons m ms)
    then show ?thesis using message SendReady by blast
  qed
next
  case (Tick now ping_ok)
  then show ?thesis using tick by blast
qed

lemma writePump_step_frame:
  "clients (fst (writePump_step c ev w)) = clients w \<and>
   requests (fst (writePump_step c ev w)) = requests w \<and>
   (\<forall>d. d \<noteq> c \<longrightarrow> heap (fst (writePump_step c ev w)) d = heap w d) \<and>
   (snd (writePump_step c ev w) = Returned \<longrightarrow>
      \<not> is_open (conn (heap (fst (writePump_step c ev w)) c))) \<and>
   snd (writePump_step c ev w) \<noteq> Hung"
proof (cases c ev w rule: writePump_step_cases)
  case waiting
  then show ?thesis by simp
next
  case (message now first_ok close_ok m ms)
  show ?thesis
    unfolding message(1) writePump_step_message[OF message(2)]
    by (simp add: prim_frame writer_prim_frame del: coalesce.simps)
next
  case (closed now first_ok close_ok)
  show ?thesis
    unfolding closed(1) writePump_step_closed[OF closed(2,3)]
    by (simp add: prim_frame writer_prim_frame)
next
  case (tick now ping_ok)
  show ?thesis
    unfolding tick writePump_step_tick
    by (simp add: prim_frame writer_prim_frame)
qed

lemma writePump_frame:
  "clients (fst (writePump c es w)) = clients w \<and>
   requests (fst (writePump c es w)) = requests w \<and>
   (\<forall>d. d \<noteq> c \<longrightarrow> heap (fst (writePump c es w)) d = heap w d) \<and>
   (snd (writePump c es w) = Returned \<longrightarrow>
      \<not> is_open (conn (heap (fst (writePump c es w)) c))) \<and>
   snd (writePump c es w) \<noteq> Hung"
proof (induction es arbitrary: w)
  case Nil
  show ?case by simp
next
  case (Cons e es)
  obtain w1 st where st: "writePump_step c e w = (w1, st)" by (cases "writePump_step c e w")
  note fr = writePump_step_frame[of c e w, unfolded st, simplified]
  show ?case
  proof (cases st)
    case Running
    then have "writePump c (e # es) w = writePump c es w1" using st by simp
    then show ?thesis using Cons.IH[of w1] fr by simp
  next
    case Returned
    then have "writePump c (e # es) w = (w1, Returned)" using st by simp
    then show ?thesis using fr Returned by simp
  next
    case Hung
    then show ?thesis using fr by simp
  qed
qed

section \<open>What the writer leaves alone\<close>

text \<open>
  C8. Whatever wakes it and however its writes fare, a run of \<open>writePump\<close> for the client
  \<open>c\<close> leaves the live set as it was, sends nothing to the hub (no unregister request), and
  changes no other client's queue or handle. When it returns, for any of its three reasons,
  its own handle is closed; the deferred function that runs at the return changes nothing
  but the open flag of that handle.
\<close>

theorem writer_frame:
  "clients (fst (writePump c es w)) = clients w \<and>
   requests (fst (writePump c es w)) = requests w \<and>
   (\<forall>d. d \<noteq> c \<longrightarrow> heap (fst (writePump c es w)) d = heap w d) \<and>
   (snd (writePump c es w) = Returned \<longrightarrow>
      \<not> is_open (conn (heap (fst (writePump c es w)) c))) \<and>
   clients (writePump_defer c w) = clients w \<and>
   requests (writePump_defer c w) = requests w \<and>
   (\<forall>d. d \<noteq> c \<longrightarrow> heap (writePump_defer c w) d = heap w d) \<and>
   send (heap (writePump_defer c w) c) = send (heap w c) \<and>
   conn (heap (writePump_defer c w) c) = (conn (heap w c))\<lparr>is_open := False\<rparr>"
  using writePump_frame[of c es w]
  by (simp add: writer_prim_frame writePump_defer_def prim_frame)

theorem writer_frame_witness:
  "snd (writePump 1 [Tick 0 True, Tick 54000000000 False] demo2) = Returned \<and>
   clients (fst (writePump 1 [Tick 0 True, Tick 54000000000 False] demo2)) = clients demo2 \<and>
   requests (fst (writePump 1 [Tick 0 True, Tick 54000000000 False] demo2)) = [] \<and>
   heap (fst (writePump 1 [Tick 0 True, Tick 54000000000 False] demo2)) 2 = heap demo2 2 \<and>
   \<not> is_open (conn (heap (fst (writePump 1 [Tick 0 True, Tick 54000000000 False] demo2)) 1))"
proof -
  have ret: "snd (writePump 1 [Tick 0 True, Tick 54000000000 False] demo2) = Returned"
    by (simp add: writePump_step_tick)
  have rq: "requests demo2 = []" by (simp add: demo2_def)
  from writer_frame[of 1 "[Tick 0 True, Tick 54000000000 False]" demo2] ret rq
  show ?thesis by simp
qed

section \<open>The reader\<close>

lemma reader_prim_frame:
  "clients (readPump_defer c w) = clients w"
  "requests (readPump_defer c w) = requests w @ [Unregister c]"
  "d \<noteq> c \<Longrightarrow> heap (readPump_defer c w) d = heap w d"
  "send (heap (readPump_defer c w) c) = send (heap w c)"
  "\<not> is_open (conn (heap (readPump_defer c w) c))"
  "clients (readPump_setup now c w) = clients w"
  "requests (readPump_setup now c w) = requests w"
  "d \<noteq> c \<Longrightarrow> heap (readPump_setup now c w) d = heap w d"
  "send (heap (readPump_setup now c w) c) = send (heap w c)"
  "read_limit (conn (heap (readPump_setup now c w) c)) = 512"
  "read_deadline (conn (heap (readPump_setup now c w) c)) = now + 60 * Second"
  "is_open (conn (heap (readPump_setup now c w) c)) = is_open (conn (heap w c))"
  by (simp_all add: readPump_defer_def readPump_setup_def set_conn_def)

lemma ReadMessage_Handled:
  "ReadMessage cn a = Handled cn' \<Longrightarrow>
     read_limit cn' = read_limit cn \<and> is_open cn' = is_open cn"
  by (auto simp: ReadMessage_def pongHandler_def split: if_splits arrival.splits)

text \<open>While the reader runs it only sends broadcasts; nothing but its own handle changes.\<close>

lemma readPump_loop_running:
  "readPump_loop c as w = (w1, Running) \<Longrightarrow>
     (\<exists>ms. requests w1 = requests w @ map Broadcast ms) \<and>
     clients w1 = clients w \<and> (\<forall>d. d \<noteq> c \<longrightarrow> heap w1 d = heap w d) \<and>
     send (heap w1 c) = send (heap w c) \<and>
     read_limit (conn (heap w1 c)) = read_limit (conn (heap w c)) \<and>
     is_open (conn (heap w1 c)) = is_open (conn (heap w c))"
proof (induction as arbitrary: w)
  case Nil
  then have "w1 = w" by simp
  moreover have "requests w = requests w @ map Broadcast []" by simp
  ultimately show ?case by blast
next
  case (Cons a as)
  show ?case
  proof (cases "ReadMessage (conn (heap w c)) a")
    case (Got m)
    let ?w = "w\<lparr>requests := requests w @ [Broadcast m]\<rparr>"
    have "readPump_loop c as ?w = (w1, Running)" using Cons.prems Got by simp
    from Cons.IH[OF this] obtain ms where
      "requests w1 = requests ?w @ map Broadcast ms" and
      rest: "clients w1 = clients ?w" "\<forall>d. d \<noteq> c \<longrightarrow> heap w1 d = heap ?w d"
        "send (heap w1 c) = send (heap ?w c)"
        "read_limit (conn (heap w1 c)) = read_limit (conn (heap ?w c))"
        "is_open (conn (heap w1 c)) = is_open (conn (heap ?w c))"
      by blast
    then have "requests w1 = requests w @ map Broadcast (m # ms)" by simp
    then have "\<exists>ns. requests w1 = requests w @ map Broadcast ns" by (rule exI)
    then show ?thesis using rest by simp
  next
    case (Failed e)
    then show ?thesis using Cons.prems by simp
  next
    case (Handled cn)
    let ?w = "set_conn c cn w"
    have "readPump_loop c as ?w = (w1, Running)" using Cons.prems Handled by simp
    from Cons.IH[OF this] ReadMessage_Handled[OF Handled]
    show ?thesis by (simp add: set_conn_def)
  qed
qed

lemma readPump_loop_append:
  "readPump_loop c pre w = (w1, Running) \<Longrightarrow>
     readPump_loop c (pre @ rest) w = readPump_loop c rest w1"
proof (induction pre arbitrary: w)
  case Nil
  then show ?case by simp
next
  case (Cons a pre)
  then show ?case
    by (cases "ReadMessage (conn (heap w c)) a") simp_all
qed

lemma count_no_unregister:
  "count_list (map Broadcast ms) (Unregister c) = 0"
  by (induction ms) simp_all

lemma unregister_frame:
  "run_step v (Unregister c, ks) = Inr v' \<Longrightarrow> d \<noteq> c \<Longrightarrow>
     heap v' d = heap v d \<and> clients v' d = clients v d"
  by (auto simp: close_chan_def set_send_def split: option.splits if_splits)

text \<open>
  C5. Let the reader of the client \<open>c\<close> be running after the arrivals \<open>pre\<close>, and let the
  next read fail, for whatever reason: a message longer than 512 bytes and every failure of
  the stream (timeout, protocol error, close by the peer) are such reads. Then the reader
  returns, whatever would arrive later; on top of the broadcasts it forwarded it has sent
  one unregister request for \<open>c\<close> and no other; its handle is closed; the live set, the own
  queue and every other client are as they were; and the hub, processing that request,
  changes no other client either.
\<close>

theorem reader_failure:
  assumes "readPump now c pre w = (w1, Running)"
    and "ReadMessage (conn (heap w1 c)) a = Failed e"
  shows "\<exists>w'. readPump now c (pre @ a # post) w = (w', Returned) \<and>
     (\<exists>ms. requests w' = requests w @ map Broadcast ms @ [Unregister c]) \<and>
     count_list (drop (length (requests w)) (requests w')) (Unregister c) = 1 \<and>
     \<not> is_open (conn (heap w' c)) \<and>
     clients w' = clients w \<and> (\<forall>d. d \<noteq> c \<longrightarrow> heap w' d = heap w d) \<and>
     send (heap w' c) = send (heap w c) \<and>
     (\<forall>ks v' d. run_step w' (Unregister c, ks) = Inr v' \<and> d \<noteq> c \<longrightarrow>
        heap v' d = heap w' d \<and> clients v' d = clients w' d) \<and>
     (\<forall>m. 512 < length m \<longrightarrow> (\<exists>e'. ReadMessage (conn (heap w1 c)) (Data m) = Failed e')) \<and>
     (\<forall>x. \<exists>e'. ReadMessage (conn (heap w1 c)) (Broken x) = Failed e')"
proof -
  let ?w0 = "readPump_setup now c w"
  have run1: "readPump_loop c pre ?w0 = (w1, Running)" using assms(1) by (simp add: readPump_def)
  from readPump_loop_running[OF run1] obtain ms where
    rq: "requests w1 = requests w @ map Broadcast ms"
    and fr: "clients w1 = clients w" "\<forall>d. d \<noteq> c \<longrightarrow> heap w1 d = heap w d"
      "send (heap w1 c) = send (heap w c)"
    and lim: "read_limit (conn (heap w1 c)) = 512"
    by (auto simp: reader_prim_frame)
  have big: "\<forall>m. 512 < length m \<longrightarrow> (\<exists>e'. ReadMessage (conn (heap w1 c)) (Data m) = Failed e')"
    using lim by (simp add: ReadMessage_def)
  have broken: "\<forall>x. \<exists>e'. ReadMessage (conn (heap w1 c)) (Broken x) = Failed e'"
    by (simp add: ReadMessage_def)
  let ?w' = "readPump_defer c w1"
  have "readPump_loop c (a # post) w1 = (?w', Returned)" using assms(2) by simp
  then have res: "readPump now c (pre @ a # post) w = (?w', Returned)"
    using readPump_loop_append[OF run1, of "a # post"] by (simp add: readPump_def)
  have rq': "requests ?w' = requests w @ map Broadcast ms @ [Unregister c]"
    using rq by (simp add: reader_prim_frame)
  have cnt: "count_list (drop (length (requests w)) (requests ?w')) (Unregister c) = 1"
    using rq' by (simp add: count_no_unregister)
  have hubfr: "\<forall>ks v' d. run_step ?w' (Unregister c, ks) = Inr v' \<and> d \<noteq> c \<longrightarrow>
        heap v' d = heap ?w' d \<and> clients v' d = clients ?w' d"
    using unregister_frame by blast
  show ?thesis
    using res rq' cnt fr hubfr big broken by (simp add: reader_prim_frame) blast
qed

theorem reader_failure_witness:
  "readPump 0 1 [Data [104], Pong 5] demo2 = (fst (readPump 0 1 [Data [104], Pong 5] demo2), Running) \<and>
   ReadMessage (conn (heap (fst (readPump 0 1 [Data [104], Pong 5] demo2)) 1)) (Data (replicate 513 0))
     = Failed ErrReadLimit \<and>
   (\<exists>w'. readPump 0 1 ([Data [104], Pong 5] @ Data (replicate 513 0) # [Data [105]]) demo2
            = (w', Returned) \<and>
      count_list (requests w') (Unregister 1) = 1 \<and>
      \<not> is_open (conn (heap w' 1)) \<and> clients w' = clients demo2 \<and> heap w' 2 = heap demo2 2)"
proof -
  let ?w1 = "fst (readPump 0 1 [Data [104], Pong 5] demo2)"
  have st: "snd (readPump 0 1 [Data [104], Pong 5] demo2) = Running"
    by (simp add: readPump_def readPump_setup_def ReadMessage_def demo2_def new_client_def
          upgraded_def set_conn_def pongHandler_def)
  have h1: "readPump 0 1 [Data [104], Pong 5] demo2 = (?w1, Running)"
    using st by (simp add: prod_eq_iff)
  have h2: "ReadMessage (conn (heap ?w1 1)) (Data (replicate 513 0)) = Failed ErrReadLimit"
    by (simp add: readPump_def readPump_setup_def ReadMessage_def demo2_def new_client_def
          upgraded_def set_conn_def pongHandler_def)
  have rq: "requests demo2 = []" by (simp add: demo2_def)
  from reader_failure[OF h1 h2, of "[Data [105]]"] obtain w' where
    r: "readPump 0 1 ([Data [104], Pong 5] @ Data (replicate 513 0) # [Data [105]]) demo2 = (w', Returned)"
    and n: "count_list (drop (length (requests demo2)) (requests w')) (Unregister 1) = 1"
    and c: "\<not> is_open (conn (heap w' 1))" "clients w' = clients demo2"
      "\<forall>d. d \<noteq> 1 \<longrightarrow> heap w' d = heap demo2 d"
    by blast
  have n': "count_list (requests w') (Unregister 1) = 1" using n rq by simp
  have o: "heap w' 2 = heap demo2 2" using c(3) by simp
  show ?thesis
    apply (intro conjI exI[of _ w'])
    apply (rule h1)
    apply (rule h2)
    apply (rule r)
    apply (rule n')
    apply (rule c(1))
    apply (rule c(2))
    apply (rule o)
    done
qed

lemma readPump_loop_clients:
  "clients (fst (readPump_loop c as w)) = clients w"
proof (induction as arbitrary: w)
  case Nil
  show ?case by simp
next
  case (Cons a as)
  show ?case
  proof (cases "ReadMessage (conn (heap w c)) a")
    case (Got m)
    then show ?thesis using Cons.IH[of "w\<lparr>requests := requests w @ [Broadcast m]\<rparr>"] by simp
  next
    case (Failed e)
    then show ?thesis by (simp add: reader_prim_frame)
  next
    case (Handled cn)
    then show ?thesis using Cons.IH[of "set_conn c cn w"] by (simp add: prim_frame)
  qed
qed

section \<open>The live set and its history\<close>

text \<open>
  C4. Let the hub, started by \<open>newHub\<close>, have processed a sequence of register, unregister
  and broadcast requests without a panic. An entry is in the live set exactly when the
  sequence holds a register request for it after which no step removed it: no unregister
  request for it and no eviction of it by a broadcast. Nothing outside \<open>Hub.run\<close> changes
  the live set: not \<open>serveWs\<close>, not a reader, not a writer.
\<close>

theorem live_set_history:
  assumes "run (newHub objs) ss = Inr w" and "orders_ok (newHub objs) ss"
  shows "(c \<in> dom (clients w) \<longleftrightarrow>
            (\<exists>pre ks post w1. ss = pre @ (Register c, ks) # post \<and>
                run (newHub objs) (pre @ [(Register c, ks)]) = Inr w1 \<and> kept w1 post c)) \<and>
         clients (serveWs upgrade_ok a v) = clients v \<and>
         clients (fst (readPump now a as v)) = clients v \<and>
         clients (fst (writePump a es v)) = clients v"
proof -
  have "dom (clients (newHub objs)) = {}" by (simp add: newHub_def)
  with membership_history[OF assms, of c]
  have "c \<in> dom (clients w) \<longleftrightarrow>
            (\<exists>pre ks post w1. ss = pre @ (Register c, ks) # post \<and>
                run (newHub objs) (pre @ [(Register c, ks)]) = Inr w1 \<and> kept w1 post c)"
    by simp
  moreover have "clients (serveWs upgrade_ok a v) = clients v"
    by (simp add: serveWs_def)
  moreover have "clients (fst (readPump now a as v)) = clients v"
    by (simp add: readPump_def readPump_loop_clients reader_prim_frame)
  moreover have "clients (fst (writePump a es v)) = clients v"
    using writePump_frame[of a es v] by simp
  ultimately show ?thesis by blast
qed

theorem live_set_history_witness:
  "(\<exists>w. run fresh_hub demo_run = Inr w \<and> dom (clients w) = {2}) \<and>
   orders_ok fresh_hub demo_run \<and>
   (\<exists>pre ks post w1. demo_run = pre @ (Register 2, ks) # post \<and>
       run fresh_hub (pre @ [(Register 2, ks)]) = Inr w1 \<and> kept w1 post 2) \<and>
   \<not> (\<exists>pre ks post w1. demo_run = pre @ (Register 1, ks) # post \<and>
       run fresh_hub (pre @ [(Register 1, ks)]) = Inr w1 \<and> kept w1 post 1)"
proof -
  have ev: "\<exists>w. run fresh_hub demo_run = Inr w \<and> dom (clients w) = {2}"
    by (simp add: demo_run_def fresh_hub_def newHub_def new_client_def make_chan_def
          close_chan_def set_send_def select_send_def)
  then obtain w where h1: "run (newHub (\<lambda>_. new_client)) demo_run = Inr w"
    and dm: "dom (clients w) = {2}"
    by (auto simp: fresh_hub_def)
  have h2: "orders_ok (newHub (\<lambda>_. new_client)) demo_run"
    by (simp add: demo_run_def newHub_def new_client_def make_chan_def
          close_chan_def set_send_def select_send_def)
  have two: "2 \<in> dom (clients w)" and one: "1 \<notin> dom (clients w)" using dm by simp_all
  from live_set_history[OF h1 h2, of 2] two
  have a: "\<exists>pre ks post w1. demo_run = pre @ (Register 2, ks) # post \<and>
       run fresh_hub (pre @ [(Register 2, ks)]) = Inr w1 \<and> kept w1 post 2"
    by (simp add: fresh_hub_def)
  from live_set_history[OF h1 h2, of 1] one
  have b: "\<not> (\<exists>pre ks post w1. demo_run = pre @ (Register 1, ks) # post \<and>
       run fresh_hub (pre @ [(Register 1, ks)]) = Inr w1 \<and> kept w1 post 1)"
    by (simp add: fresh_hub_def)
  from ev h2 a b show ?thesis by (simp add: fresh_hub_def)
qed

lemma writer_prim_view:
  "send (heap (SetWriteDeadline t c w) c) = send (heap w c)"
  "written (conn (heap (SetWriteDeadline t c w) c)) = written (conn (heap w c))"
  "is_open (conn (heap (SetWriteDeadline t c w) c)) = is_open (conn (heap w c))"
  "write_deadline (conn (heap (SetWriteDeadline t c w) c)) = t"
  "send (heap (wrote f c w) c) = send (heap w c)"
  "written (conn (heap (wrote f c w) c)) = written (conn (heap w c)) @ [f]"
  "is_open (conn (heap (wrote f c w) c)) = is_open (conn (heap w c))"
  "write_deadline (conn (heap (wrote f c w) c)) = write_deadline (conn (heap w c))"
  "send (heap (writePump_defer c w) c) = send (heap w c)"
  "written (conn (heap (writePump_defer c w) c)) = written (conn (heap w c))"
  "write_deadline (conn (heap (writePump_defer c w) c)) = write_deadline (conn (heap w c))"
  "written (conn (heap (set_send c ch w) c)) = written (conn (heap w c))"
  by (simp_all add: SetWriteDeadline_def wrote_def writePump_defer_def set_conn_def set_send_def)

section \<open>The write batch\<close>

text \<open>
  C6. When the writer wakes on a queue that holds \<open>m\<close> and after it \<open>ms\<close>, and the handle
  takes the writes, one text frame is written: \<open>m\<close>, then each message of \<open>ms\<close> in queue
  order, each after a newline byte. These are exactly the buffered messages: the queue is
  empty afterwards, the pump keeps running, and the write deadline is 10 seconds from now.
  What the hub enqueues later goes out in the next frame, so the bytes leave in the order
  of the queue. (The iteration is taken as one step; an enqueue that falls between its
  receive and its \<open>len(c.send)\<close> is an enqueue before the step, a later one an enqueue
  after it.)
\<close>

theorem writer_coalesces:
  assumes "buf (send (heap w c)) = m # ms"
  shows "\<exists>w'. writePump_step c (SendReady now True True) w = (w', Running) \<and>
     written (conn (heap w' c)) =
       written (conn (heap w c)) @ [TextMessage (m @ concat (map (\<lambda>x. newline @ x) ms))] \<and>
     buf (send (heap w' c)) = [] \<and>
     write_deadline (conn (heap w' c)) = now + 10 * Second \<and>
     (\<forall>n ns now'. \<exists>w''.
        writePump_step c (SendReady now' True True)
          (set_send c ((send (heap w' c))\<lparr>buf := n # ns\<rparr>) w') = (w'', Running) \<and>
        written (conn (heap w'' c)) =
          written (conn (heap w c)) @
            [TextMessage (m @ concat (map (\<lambda>x. newline @ x) ms)),
             TextMessage (n @ concat (map (\<lambda>x. newline @ x) ns))])"
proof -
  let ?w' = "wrote (TextMessage (coalesce (m # ms))) c
           (set_send c ((send (heap w c))\<lparr>buf := []\<rparr>)
              (SetWriteDeadline (now + 10 * Second) c w))"
  have st: "writePump_step c (SendReady now True True) w = (?w', Running)"
    using writePump_step_message[OF assms, of now True True] by simp
  have wr: "written (conn (heap ?w' c)) =
       written (conn (heap w c)) @ [TextMessage (m @ concat (map (\<lambda>x. newline @ x) ms))]"
    by (simp add: writer_prim_view prim_frame)
  have bf: "buf (send (heap ?w' c)) = []"
    by (simp add: writer_prim_view prim_frame)
  have dl: "write_deadline (conn (heap ?w' c)) = now + 10 * Second"
    by (simp add: writer_prim_view prim_frame)
  have nxt: "\<exists>w''.
        writePump_step c (SendReady now' True True)
          (set_send c ((send (heap ?w' c))\<lparr>buf := n # ns\<rparr>) ?w') = (w'', Running) \<and>
        written (conn (heap w'' c)) =
          written (conn (heap w c)) @
            [TextMessage (m @ concat (map (\<lambda>x. newline @ x) ms)),
             TextMessage (n @ concat (map (\<lambda>x. newline @ x) ns))]" for n ns now'
  proof -
    let ?v = "set_send c ((send (heap ?w' c))\<lparr>buf := n # ns\<rparr>) ?w'"
    have b: "buf (send (heap ?v c)) = n # ns" by (simp add: prim_frame)
    have wv: "written (conn (heap ?v c)) =
        written (conn (heap w c)) @ [TextMessage (m @ concat (map (\<lambda>x. newline @ x) ms))]"
      using wr by (simp add: writer_prim_view)
    let ?v' = "wrote (TextMessage (coalesce (n # ns))) c
           (set_send c ((send (heap ?v c))\<lparr>buf := []\<rparr>)
              (SetWriteDeadline (now' + 10 * Second) c ?v))"
    have "writePump_step c (SendReady now' True True) ?v = (?v', Running)"
      using writePump_step_message[OF b, of now' True True] by simp
    moreover have "written (conn (heap ?v' c)) =
          written (conn (heap w c)) @
            [TextMessage (m @ concat (map (\<lambda>x. newline @ x) ms)),
             TextMessage (n @ concat (map (\<lambda>x. newline @ x) ns))]"
      using wv by (simp add: writer_prim_view prim_frame)
    ultimately show ?thesis by blast
  qed
  from st wr bf dl nxt show ?thesis by blast
qed

theorem writer_coalesces_witness:
  "buf (send (heap demo_buffered 1)) = [104] # [[105, 106]] \<and>
   (\<exists>w'. writePump_step 1 (SendReady 0 True True) demo_buffered = (w', Running) \<and>
      written (conn (heap w' 1)) = [TextMessage [104, 10, 105, 106]] \<and>
      buf (send (heap w' 1)) = [])"
proof -
  have h: "buf (send (heap demo_buffered 1)) = [104] # [[105, 106]]"
    by (simp add: demo_buffered_def new_client_def make_chan_def)
  have w0: "written (conn (heap demo_buffered 1)) = []"
    by (simp add: demo_buffered_def new_client_def upgraded_def)
  from writer_coalesces[OF h, of 0] obtain w' where
    "writePump_step 1 (SendReady 0 True True) demo_buffered = (w', Running)"
    "written (conn (heap w' 1)) =
       written (conn (heap demo_buffered 1)) @
         [TextMessage ([104] @ concat (map (\<lambda>x. newline @ x) [[105, 106]]))]"
    "buf (send (heap w' 1)) = []"
    by blast
  then have "writePump_step 1 (SendReady 0 True True) demo_buffered = (w', Running) \<and>
      written (conn (heap w' 1)) = [TextMessage [104, 10, 105, 106]] \<and>
      buf (send (heap w' 1)) = []"
    using w0 by (simp add: newline_def)
  with h show ?thesis by blast
qed

section \<open>Closure with messages still buffered\<close>




section \<open>Heartbeat\<close>




end
